theory Spec2Isabelle
  imports Main "HOL-Library.AList"
begin

section \<open>Python strings\<close>

text \<open>
  The parser of \<^verbatim>\<open>ndf/parser.py\<close> works on Python \<^verbatim>\<open>str\<close> values. A \<^verbatim>\<open>str\<close> is
  modelled as a \<^typ>\<open>string\<close>, each \<^typ>\<open>char\<close> standing for the code point of the same
  number, so the development covers texts over the code points below 256.

  \<open>isspace\<close> is the set of characters that \<^verbatim>\<open>str.strip()\<close>, \<^verbatim>\<open>str.lstrip()\<close>,
  \<^verbatim>\<open>str.rstrip()\<close> remove and that \<^verbatim>\<open>\s\<close> matches in a \<^verbatim>\<open>str\<close> pattern: in that range
  these are U+0009..U+000D, U+001C..U+001F, U+0020, U+0085 and U+00A0.
\<close>

definition isspace :: "char \<Rightarrow> bool" where
  "isspace c \<longleftrightarrow> c \<in> {CHR 0x09, CHR 0x0A, CHR 0x0B, CHR 0x0C, CHR 0x0D,
                      CHR 0x1C, CHR 0x1D, CHR 0x1E, CHR 0x1F, CHR 0x20, CHR 0x85, CHR 0xA0}"

definition lstrip :: "string \<Rightarrow> string" where
  "lstrip s = dropWhile isspace s"

definition rstrip :: "string \<Rightarrow> string" where
  "rstrip s = rev (dropWhile isspace (rev s))"

definition strip :: "string \<Rightarrow> string" where
  "strip s = rstrip (lstrip s)"

definition startswith :: "string \<Rightarrow> string \<Rightarrow> bool" where
  \<comment> \<open>\<^verbatim>\<open>s.startswith(p)\<close>\<close>
  "startswith p s \<longleftrightarrow> take (length p) s = p"

definition endswith :: "string \<Rightarrow> string \<Rightarrow> bool" where
  \<comment> \<open>\<^verbatim>\<open>s.endswith(p)\<close>\<close>
  "endswith p s \<longleftrightarrow> length p \<le> length s \<and> drop (length s - length p) s = p"

definition is_upper :: "char \<Rightarrow> bool" where
  "is_upper c \<longleftrightarrow>
     (let n = of_char c :: nat in (65 \<le> n \<and> n \<le> 90) \<or> (192 \<le> n \<and> n \<le> 222 \<and> n \<noteq> 215))"

definition lower_char :: "char \<Rightarrow> char" where
  "lower_char c = (if is_upper c then char_of (of_char c + 32 :: nat) else c)"

definition lower :: "string \<Rightarrow> string" where
  \<comment> \<open>\<^verbatim>\<open>s.lower()\<close>\<close>
  "lower s = map lower_char s"

text \<open>\<^verbatim>\<open>s.split(c)\<close> for a one-character separator: never the empty list.\<close>

fun split_char :: "char \<Rightarrow> string \<Rightarrow> string list" where
  "split_char c [] = [[]]"
| "split_char c (x # xs) =
     (if x = c then [] # split_char c xs
      else (x # hd (split_char c xs)) # tl (split_char c xs))"

text \<open>\<^verbatim>\<open>s.split(c, 1)\<close>: one piece when \<open>c\<close> does not occur, two otherwise.\<close>

definition split_once :: "char \<Rightarrow> string \<Rightarrow> string list" where
  "split_once c s =
     (if c \<in> set s then [takeWhile (\<lambda>x. x \<noteq> c) s, tl (dropWhile (\<lambda>x. x \<noteq> c) s)] else [s])"

text \<open>\<^verbatim>\<open>sep.join(xs)\<close>\<close>

fun join :: "string \<Rightarrow> string list \<Rightarrow> string" where
  "join sep [] = []"
| "join sep [x] = x"
| "join sep (x # y # ys) = x @ sep @ join sep (y # ys)"

text \<open>\<^verbatim>\<open>s[1:-1]\<close>: empty for a text of fewer than three characters' interior.\<close>

definition slice_1_m1 :: "string \<Rightarrow> string" where
  "slice_1_m1 s = butlast (tl s)"

text \<open>
  The exceptions the parser's own calls can raise. \<^verbatim>\<open>key, value = line.split(':', 1)\<close>
  raises \<^verbatim>\<open>ValueError\<close> when the split has one piece, and \<^verbatim>\<open>line.index('#')\<close> raises
  it when the character is absent.
\<close>

datatype error = ValueError

definition index_of :: "char \<Rightarrow> string \<Rightarrow> error + nat" where
  \<comment> \<open>\<^verbatim>\<open>s.index(c)\<close>\<close>
  "index_of c s = (if c \<in> set s then Inr (length (takeWhile (\<lambda>x. x \<noteq> c) s)) else Inl ValueError)"

text \<open>
  \<^verbatim>\<open>re.split(r'[,\s]+', value)\<close>: the pieces between the maximal runs of commas and
  whitespace, with an empty piece where the text starts or ends with such a run.
\<close>

definition is_sep :: "char \<Rightarrow> bool" where
  "is_sep c \<longleftrightarrow> c = CHR '','' \<or> isspace c"

function re_split :: "string \<Rightarrow> string list" where
  "re_split s =
     (let item = takeWhile (\<lambda>c. \<not> is_sep c) s; rest = dropWhile (\<lambda>c. \<not> is_sep c) s
      in if rest = [] then [item] else item # re_split (dropWhile is_sep rest))"
  by pat_completeness auto
termination
proof (relation "measure length")
  fix s item rest
  assume r: "rest = dropWhile (\<lambda>c. \<not> is_sep c) s" and ne: "rest \<noteq> []"
  have "length (dropWhile is_sep rest) < length rest"
  proof (cases rest)
    case Nil
    with ne show ?thesis by simp
  next
    case (Cons c cs)
    with r have "dropWhile (\<lambda>c. \<not> is_sep c) s = c # cs" by simp
    then have "is_sep c" by (simp add: dropWhile_eq_Cons_conv)
    with Cons show ?thesis
      using length_dropWhile_le [of is_sep cs] by simp
  qed
  moreover have "length rest \<le> length s"
    using r length_dropWhile_le by simp
  ultimately show "(dropWhile is_sep rest, s) \<in> measure length" by simp
qed simp

section \<open>Python integers\<close>

text \<open>
  \<^verbatim>\<open>int(value)\<close> on a \<^verbatim>\<open>str\<close>: surrounding whitespace is ignored, then an optional sign
  and decimal digits, in which single underscores may separate digits. \<open>None\<close> stands for
  the \<^verbatim>\<open>ValueError\<close> that the scalar parser catches. The interpreter's configurable limit
  on the number of digits is not part of the model.
\<close>

definition is_digit :: "char \<Rightarrow> bool" where
  "is_digit c \<longleftrightarrow> c \<in> set ''0123456789''"

definition digit_val :: "char \<Rightarrow> nat" where
  "digit_val c = of_char c - 48"

fun py_digits :: "nat \<Rightarrow> string \<Rightarrow> nat option" where
  "py_digits acc [] = None"
| "py_digits acc (c # cs) =
     (if \<not> is_digit c then None
      else (case cs of
              [] \<Rightarrow> Some (10 * acc + digit_val c)
            | d # ds \<Rightarrow>
                if d = CHR ''_'' then py_digits (10 * acc + digit_val c) ds
                else py_digits (10 * acc + digit_val c) cs))"

definition py_int :: "string \<Rightarrow> int option" where
  "py_int s =
     (case strip s of
        [] \<Rightarrow> None
      | c # cs \<Rightarrow>
          if c = CHR ''-'' then map_option (\<lambda>n. - int n) (py_digits 0 cs)
          else if c = CHR ''+'' then map_option int (py_digits 0 cs)
          else map_option int (py_digits 0 (c # cs)))"

section \<open>Values\<close>

text \<open>
  The Python objects the parser builds: \<^verbatim>\<open>None\<close>, \<^verbatim>\<open>bool\<close>, \<^verbatim>\<open>int\<close>, \<^verbatim>\<open>float\<close>, \<^verbatim>\<open>str\<close>,
  \<^verbatim>\<open>list\<close> and \<^verbatim>\<open>dict\<close>. A \<^verbatim>\<open>dict\<close> keeps its keys in insertion order and assigning to a
  key that is present keeps the key's place: an association list with \<^const>\<open>AList.update\<close>.

  Floating-point numbers are outside the embedding. The type \<open>'f\<close> stands for Python's
  \<^verbatim>\<open>float\<close>, and the two builtins that touch it are parameters: the parser takes
  \<open>fl :: string \<Rightarrow> 'f option\<close> for \<^verbatim>\<open>float(value)\<close> (\<open>None\<close> for its \<^verbatim>\<open>ValueError\<close>) and the
  serializer takes \<open>fs :: 'f \<Rightarrow> string\<close> for \<^verbatim>\<open>str\<close> of a float. Every theorem with a free
  \<open>fl\<close> or \<open>fs\<close> holds for each choice of them.
\<close>

datatype 'f ndf_value =
    VNull
  | VBool bool
  | VInt int
  | VFloat 'f
  | VStr string
  | VList "'f ndf_value list"
  | VMap "(string \<times> 'f ndf_value) list"

type_synonym 'f dict = "(string \<times> 'f ndf_value) list"

section \<open>Helper methods\<close>

definition get_indent :: "string \<Rightarrow> nat" where
  \<comment> \<open>\<^verbatim>\<open>len(line) - len(line.lstrip())\<close>\<close>
  "get_indent line = length line - length (lstrip line)"

definition remove_inline_comment :: "string \<Rightarrow> error + string" where
  "remove_inline_comment line =
     (if CHR ''#'' \<in> set line
      then (case index_of (CHR ''#'') line of Inl e \<Rightarrow> Inl e | Inr n \<Rightarrow> Inr (take n line))
      else Inr line)"

definition split_key_value :: "string \<Rightarrow> error + (string \<times> string)" where
  "split_key_value line =
     (case split_once (CHR '':'') line of
        [key, val] \<Rightarrow> Inr (strip key, strip val)
      | _ \<Rightarrow> Inl ValueError)"

section \<open>The value parser\<close>

definition parse_simple_value :: "(string \<Rightarrow> 'f option) \<Rightarrow> string \<Rightarrow> 'f ndf_value" where
  "parse_simple_value fl value0 =
     (let val = strip value0 in
      if (startswith [CHR 0x22] val \<and> endswith [CHR 0x22] val) \<or>
         (startswith [CHR 0x27] val \<and> endswith [CHR 0x27] val)
      then VStr (slice_1_m1 val)
      else if lower val \<in> {''yes'', ''true''} then VBool True
      else if lower val \<in> {''no'', ''false''} then VBool False
      else if lower val \<in> {''null'', ''none'', ''-''} then VNull
      else if CHR ''.'' \<in> set val \<or> CHR ''e'' \<in> set (lower val)
      then (case fl val of Some x \<Rightarrow> VFloat x | None \<Rightarrow> VStr val)
      else (case py_int val of Some n \<Rightarrow> VInt n | None \<Rightarrow> VStr val))"

fun inline_pairs :: "(string \<Rightarrow> 'f option) \<Rightarrow> string list \<Rightarrow> 'f dict \<Rightarrow> error + 'f dict" where
  "inline_pairs fl [] result = Inr result"
| "inline_pairs fl (pair # pairs) result =
     (if CHR '':'' \<notin> set pair then inline_pairs fl pairs result
      else (case split_once (CHR '':'') pair of
              [key, val] \<Rightarrow>
                inline_pairs fl pairs
                  (AList.update (strip key) (parse_simple_value fl (strip val)) result)
            | _ \<Rightarrow> Inl ValueError))"

definition parse_inline_object :: "(string \<Rightarrow> 'f option) \<Rightarrow> string \<Rightarrow> error + 'f dict" where
  "parse_inline_object fl text =
     inline_pairs fl (split_char (CHR '','') (slice_1_m1 (strip text))) []"

lemma length_lstrip_le: "length (lstrip s) \<le> length s"
  by (simp add: lstrip_def length_dropWhile_le)

lemma length_rstrip_le: "length (rstrip s) \<le> length s"
  using length_dropWhile_le [of isspace "rev s"] by (simp add: rstrip_def)

lemma length_strip_le: "length (strip s) \<le> length s"
  using length_rstrip_le [of "lstrip s"] length_lstrip_le [of s] by (simp add: strip_def)

lemma length_slice_1_m1: "length (slice_1_m1 s) = length s - 2"
  by (simp add: slice_1_m1_def)

text \<open>
  \<^verbatim>\<open>_parse_array\<close> and its loop over the characters of \<^verbatim>\<open>text + ','\<close>: \<open>array_loop\<close> carries
  the characters still to read and the loop's \<^verbatim>\<open>depth\<close>, \<^verbatim>\<open>item\<close> and \<^verbatim>\<open>result\<close>.
\<close>

function parse_array :: "(string \<Rightarrow> 'f option) \<Rightarrow> string \<Rightarrow> 'f ndf_value list"
  and array_loop :: "(string \<Rightarrow> 'f option) \<Rightarrow> string \<Rightarrow> int \<Rightarrow> string \<Rightarrow> 'f ndf_value list \<Rightarrow> 'f ndf_value list"
where
  "parse_array fl text =
     (let t = slice_1_m1 (strip text) in
      if CHR ''['' \<in> set t then array_loop fl (t @ '','') 0 [] []
      else map (parse_simple_value fl)
             (map strip (filter (\<lambda>item. strip item \<noteq> []) (split_char (CHR '','') t))))"
| "array_loop fl [] depth item result = result"
| "array_loop fl (c # cs) depth item result =
     (if c = CHR ''['' then array_loop fl cs (depth + 1) (item @ [c]) result
      else if c = CHR '']'' then array_loop fl cs (depth - 1) (item @ [c]) result
      else if c = CHR '','' \<and> depth = 0 then
        (if strip item \<noteq> [] then
           (if startswith ''['' (strip item)
            then array_loop fl cs depth [] (result @ [VList (parse_array fl (strip item))])
            else array_loop fl cs depth [] (result @ [parse_simple_value fl (strip item)]))
         else array_loop fl cs depth [] result)
      else array_loop fl cs depth (item @ [c]) result)"
  by pat_completeness auto
termination
proof (relation "inv_image (less_than <*lex*> less_than)
    (\<lambda>x. case x of
        Inl (fl, s) \<Rightarrow> (2 * length s, 0)
      | Inr (fl, cs, depth, item, result) \<Rightarrow> (2 * (length cs + length item) + 1, length cs))",
    goal_cases)
  case 1
  show ?case by (intro wf_inv_image wf_lex_prod wf_less_than)
next
  case (2 fl s t)
  from 2 have "0 < length t" by (cases t) auto
  with 2 have "length t + 2 \<le> length (strip s)"
    by (simp add: length_slice_1_m1)
  with length_strip_le [of s] have "length t + 2 \<le> length s" by simp
  then show ?case by simp
next
  case (5 fl c cs depth item result)
  show ?case using length_strip_le [of item] by simp
qed simp_all

definition parse_value :: "(string \<Rightarrow> 'f option) \<Rightarrow> string \<Rightarrow> error + 'f ndf_value" where
  "parse_value fl value0 =
     (let val = strip value0 in
      if startswith ''{'' val \<and> endswith ''}'' val
      then (case parse_inline_object fl val of Inl e \<Rightarrow> Inl e | Inr d \<Rightarrow> Inr (VMap d))
      else if startswith ''['' val \<and> endswith '']'' val
      then Inr (VList (parse_array fl val))
      else if CHR '','' \<in> set val \<or> (CHR '' '' \<in> set val \<and> \<not> startswith [CHR 0x22] val)
      then Inr (VList (map (parse_simple_value fl)
                   (map strip (filter (\<lambda>item. strip item \<noteq> []) (re_split val)))))
      else Inr (parse_simple_value fl val))"

section \<open>The block parser\<close>

text \<open>
  The loops of the source run over an index \<open>i\<close> into \<^verbatim>\<open>lines\<close> while \<^verbatim>\<open>i < len(lines)\<close>;
  each is a recursive function on that index, with the loop's variables as arguments.

  \<open>multiline_loop\<close> is the loop of \<^verbatim>\<open>_parse_multiline\<close>, carrying \<^verbatim>\<open>text_lines\<close>.
\<close>

function multiline_loop :: "string list \<Rightarrow> nat \<Rightarrow> nat \<Rightarrow> string list \<Rightarrow> string list \<times> nat" where
  "multiline_loop lines i indent text_lines =
     (if i < length lines then
        (let next_line = lines ! i; next_indent = get_indent next_line in
         if next_indent \<le> indent \<and> strip next_line \<noteq> [] then (text_lines, i)
         else multiline_loop lines (i + 1) indent
                (text_lines @ [if length next_line > indent + 2 then drop (indent + 2) next_line else []]))
      else (text_lines, i))"
  by pat_completeness auto
termination
  by (relation "measure (\<lambda>(lines, i, indent, text_lines). length lines - i)") auto

definition parse_multiline :: "string list \<Rightarrow> nat \<Rightarrow> nat \<Rightarrow> string \<times> nat" where
  "parse_multiline lines i indent =
     (let (text_lines, j) = multiline_loop lines (i + 1) indent []
      in (rstrip (join ''\<newline>'' text_lines), j))"

text \<open>
  \<open>nested_loop\<close> is the loop of \<^verbatim>\<open>_parse_nested\<close>, carrying \<^verbatim>\<open>nested_lines\<close> and returning
  them with the final \<^verbatim>\<open>nested_start\<close>.
\<close>

function nested_loop :: "string list \<Rightarrow> nat \<Rightarrow> nat \<Rightarrow> string list \<Rightarrow> string list \<times> nat" where
  "nested_loop lines nested_start indent nested_lines =
     (if nested_start < length lines then
        (let next_line = lines ! nested_start in
         if strip next_line = [] \<or> startswith ''#'' (strip next_line)
         then nested_loop lines (nested_start + 1) indent nested_lines
         else if get_indent next_line \<le> indent then (nested_lines, nested_start)
         else nested_loop lines (nested_start + 1) indent (nested_lines @ [next_line]))
      else (nested_lines, nested_start))"
  by pat_completeness auto
termination
  by (relation "measure (\<lambda>(lines, nested_start, indent, nested_lines). length lines - nested_start)") auto

text \<open>
  The test of the block parser and of \<^verbatim>\<open>_parse_nested\<close> for a line that is neither blank nor
  a comment, \<^verbatim>\<open>not (not line.strip() or line.strip().startswith('#'))\<close>.
\<close>

definition content_line :: "string \<Rightarrow> bool" where
  "content_line line \<longleftrightarrow> strip line \<noteq> [] \<and> \<not> startswith ''#'' (strip line)"

declare re_split.simps [simp del]
declare multiline_loop.simps [simp del]
declare nested_loop.simps [simp del]

lemma multiline_loop_index: "i \<le> snd (multiline_loop lines i indent text_lines)"
proof (induction lines i indent text_lines rule: multiline_loop.induct)
  case (1 lines i indent text_lines)
  show ?case
  proof (cases "i < length lines \<and>
      \<not> (get_indent (lines ! i) \<le> indent \<and> strip (lines ! i) \<noteq> [])")
    case True
    with "1.IH" [OF _ refl refl] have
      "i + 1 \<le> snd (multiline_loop lines (i + 1) indent
         (text_lines @ [if length (lines ! i) > indent + 2 then drop (indent + 2) (lines ! i) else []]))"
      by blast
    with True show ?thesis by (subst multiline_loop.simps) (simp add: Let_def)
  next
    case False
    then show ?thesis by (subst multiline_loop.simps) (auto simp: Let_def)
  qed
qed

lemma nested_loop_length:
  "length (fst (nested_loop lines j indent acc)) + j \<le> length acc + max j (length lines)"
proof (induction lines j indent acc rule: nested_loop.induct)
  case (1 lines j indent acc)
  show ?case
  proof (cases "j < length lines")
    case False
    then show ?thesis by (subst nested_loop.simps) simp
  next
    case lt: True
    show ?thesis
    proof (cases "strip (lines ! j) = [] \<or> startswith ''#'' (strip (lines ! j))")
      case True
      with lt "1.IH"(1) [OF lt refl] show ?thesis
        by (subst nested_loop.simps) (simp add: Let_def)
    next
      case nc: False
      show ?thesis
      proof (cases "get_indent (lines ! j) \<le> indent")
        case True
        with lt nc show ?thesis by (subst nested_loop.simps) (simp add: Let_def)
      next
        case False
        with lt nc "1.IH"(2) [OF lt refl] show ?thesis
          by (subst nested_loop.simps) (simp add: Let_def)
      qed
    qed
  qed
qed

lemma nested_loop_index: "j \<le> snd (nested_loop lines j indent acc)"
proof (induction lines j indent acc rule: nested_loop.induct)
  case (1 lines j indent acc)
  show ?case
  proof (cases "j < length lines")
    case False
    then show ?thesis by (subst nested_loop.simps) simp
  next
    case lt: True
    show ?thesis
    proof (cases "strip (lines ! j) = [] \<or> startswith ''#'' (strip (lines ! j))")
      case True
      with lt "1.IH"(1) [OF lt refl] show ?thesis
        by (subst nested_loop.simps) (simp add: Let_def)
    next
      case nc: False
      show ?thesis
      proof (cases "get_indent (lines ! j) \<le> indent")
        case True
        with lt nc show ?thesis by (subst nested_loop.simps) (simp add: Let_def)
      next
        case False
        with lt nc "1.IH"(2) [OF lt refl] show ?thesis
          by (subst nested_loop.simps) (simp add: Let_def)
      qed
    qed
  qed
qed

text \<open>
  \<open>parse_block_loop\<close> is the loop of \<^verbatim>\<open>_parse_block\<close>, carrying \<^verbatim>\<open>result\<close>. The two
  last lines of \<^verbatim>\<open>_parse_nested\<close>, which call \<^verbatim>\<open>_parse_block\<close> on the collected lines at
  \<^verbatim>\<open>indent + 2\<close> or return \<^verbatim>\<open>None\<close> and \<^verbatim>\<open>i + 1\<close>, stand in the branch that calls it.
\<close>

function parse_block_loop ::
  "(string \<Rightarrow> 'f option) \<Rightarrow> string list \<Rightarrow> nat \<Rightarrow> nat \<Rightarrow> 'f dict \<Rightarrow> error + ('f dict \<times> nat)" where
  "parse_block_loop fl lines i start_indent result =
     (if \<not> i < length lines then Inr (result, i)
      else if strip (lines ! i) = [] \<or> startswith ''#'' (strip (lines ! i))
      then parse_block_loop fl lines (i + 1) start_indent result
      else if get_indent (lines ! i) < start_indent then Inr (result, i)
      else if get_indent (lines ! i) > start_indent
      then parse_block_loop fl lines (i + 1) start_indent result
      else
        (case remove_inline_comment (lines ! i) of
           Inl e \<Rightarrow> Inl e
         | Inr uncommented \<Rightarrow>
             if CHR '':'' \<notin> set (strip uncommented)
             then parse_block_loop fl lines (i + 1) start_indent result
             else
               (case split_key_value (strip uncommented) of
                  Inl e \<Rightarrow> Inl e
                | Inr (key, val) \<Rightarrow>
                    if val = ''|'' then
                      parse_block_loop fl lines
                        (snd (parse_multiline lines i (get_indent (lines ! i))))
                        start_indent
                        (AList.update key
                           (VStr (fst (parse_multiline lines i (get_indent (lines ! i))))) result)
                    else if val = [] then
                      (if fst (nested_loop lines (i + 1) (get_indent (lines ! i)) []) \<noteq> [] then
                         (case parse_block_loop fl
                                 (fst (nested_loop lines (i + 1) (get_indent (lines ! i)) []))
                                 0 (get_indent (lines ! i) + 2) [] of
                            Inl e \<Rightarrow> Inl e
                          | Inr nested \<Rightarrow>
                              parse_block_loop fl lines
                                (snd (nested_loop lines (i + 1) (get_indent (lines ! i)) []))
                                start_indent (AList.update key (VMap (fst nested)) result))
                       else parse_block_loop fl lines (i + 1) start_indent
                              (AList.update key VNull result))
                    else
                      (case parse_value fl val of
                         Inl e \<Rightarrow> Inl e
                       | Inr v \<Rightarrow>
                           parse_block_loop fl lines (i + 1) start_indent
                             (AList.update key v result)))))"
  by pat_completeness auto
termination
proof (relation "inv_image (less_than <*lex*> less_than)
    (\<lambda>(fl, lines, i, start_indent, result). (length lines, length lines - i))", goal_cases)
  case 1
  show ?case by (intro wf_inv_image wf_lex_prod wf_less_than)
next
  case (5 fl lines i start_indent result uncommented kv key val)
  have "i + 1 \<le> snd (multiline_loop lines (i + 1) (get_indent (lines ! i)) [])"
    by (rule multiline_loop_index)
  with 5 show ?case
    by (simp add: parse_multiline_def split_beta)
next
  case (6 fl lines i start_indent result uncommented kv key val)
  have "length (fst (nested_loop lines (i + 1) (get_indent (lines ! i)) [])) + (i + 1)
      \<le> length ([] :: string list) + max (i + 1) (length lines)"
    by (rule nested_loop_length)
  with 6 show ?case by simp
next
  case (7 fl lines i start_indent result uncommented kv key val nested)
  have "i + 1 \<le> snd (nested_loop lines (i + 1) (get_indent (lines ! i)) [])"
    by (rule nested_loop_index)
  with 7 show ?case by simp
qed simp_all

declare parse_block_loop.simps [simp del]

definition parse_block :: "(string \<Rightarrow> 'f option) \<Rightarrow> string list \<Rightarrow> nat \<Rightarrow> error + ('f dict \<times> nat)" where
  "parse_block fl lines start_indent = parse_block_loop fl lines 0 start_indent []"

definition parse :: "(string \<Rightarrow> 'f option) \<Rightarrow> string \<Rightarrow> error + 'f dict" where
  "parse fl text =
     (case parse_block fl (split_char (CHR ''\<newline>'') (strip text)) 0 of
        Inl e \<Rightarrow> Inl e
      | Inr r \<Rightarrow> Inr (fst r))"

section \<open>The serializer\<close>

text \<open>
  \<^verbatim>\<open>str\<close> and \<^verbatim>\<open>repr\<close> of the values, as the f-strings and \<^verbatim>\<open>map(str, value)\<close> of the
  serializer call them. \<^verbatim>\<open>str\<close> of an \<^verbatim>\<open>int\<close> is its decimal numeral; \<^verbatim>\<open>str\<close> of a \<^verbatim>\<open>list\<close>
  or \<^verbatim>\<open>dict\<close> is its \<^verbatim>\<open>repr\<close>, which quotes and escapes the strings inside.
\<close>

definition digit_char :: "nat \<Rightarrow> char" where
  "digit_char d = ''0123456789'' ! d"

function str_nat :: "nat \<Rightarrow> string" where
  "str_nat n = (if n < 10 then [digit_char n] else str_nat (n div 10) @ [digit_char (n mod 10)])"
  by pat_completeness auto
termination
  by (relation "measure id") auto

declare str_nat.simps [simp del]

definition str_int :: "int \<Rightarrow> string" where
  "str_int i = (if i < 0 then CHR ''-'' # str_nat (nat (- i)) else str_nat (nat i))"

definition repr_printable :: "char \<Rightarrow> bool" where
  "repr_printable c \<longleftrightarrow>
     (let n = of_char c :: nat in 32 \<le> n \<and> n \<noteq> 127 \<and> (n < 128 \<or> 160 < n) \<and> n \<noteq> 173)"

definition hex_char :: "nat \<Rightarrow> char" where
  "hex_char d = ''0123456789abcdef'' ! d"

definition repr_char :: "char \<Rightarrow> char \<Rightarrow> string" where
  "repr_char q c =
     (if c = q \<or> c = CHR 0x5C then [CHR 0x5C, c]
      else if c = CHR 0x09 then [CHR 0x5C, CHR ''t'']
      else if c = CHR 0x0A then [CHR 0x5C, CHR ''n'']
      else if c = CHR 0x0D then [CHR 0x5C, CHR ''r'']
      else if repr_printable c then [c]
      else [CHR 0x5C, CHR ''x'', hex_char (of_char c div 16), hex_char (of_char c mod 16)])"

definition repr_str :: "string \<Rightarrow> string" where
  "repr_str s =
     (let q = (if CHR 0x27 \<in> set s \<and> CHR 0x22 \<notin> set s then CHR 0x22 else CHR 0x27)
      in [q] @ concat (map (repr_char q) s) @ [q])"

primrec py_repr :: "('f \<Rightarrow> string) \<Rightarrow> 'f ndf_value \<Rightarrow> string" where
  "py_repr fs VNull = ''None''"
| "py_repr fs (VBool b) = (if b then ''True'' else ''False'')"
| "py_repr fs (VInt i) = str_int i"
| "py_repr fs (VFloat x) = fs x"
| "py_repr fs (VStr s) = repr_str s"
| "py_repr fs (VList xs) = ''['' @ join '', '' (map (py_repr fs) xs) @ '']''"
| "py_repr fs (VMap d) =
     ''{'' @ join '', '' (map (\<lambda>(k, r). repr_str k @ '': '' @ r) (map (map_prod id (py_repr fs)) d)) @ ''}''"

definition py_str :: "('f \<Rightarrow> string) \<Rightarrow> 'f ndf_value \<Rightarrow> string" where
  "py_str fs v = (case v of VStr s \<Rightarrow> s | _ \<Rightarrow> py_repr fs v)"

text \<open>\<^verbatim>\<open>isinstance(x, (int, float, str, bool))\<close>\<close>

definition is_simple :: "'f ndf_value \<Rightarrow> bool" where
  "is_simple x = (case x of VBool _ \<Rightarrow> True | VInt _ \<Rightarrow> True | VFloat _ \<Rightarrow> True | VStr _ \<Rightarrow> True
                  | _ \<Rightarrow> False)"

definition format_multiline :: "string \<Rightarrow> string \<Rightarrow> string \<Rightarrow> string" where
  "format_multiline key val indent_str =
     join ''\<newline>'' ((indent_str @ key @ '': |'')
        # map (\<lambda>line. indent_str @ ''  '' @ line) (split_char (CHR ''\<newline>'') val))"

text \<open>
  \<^verbatim>\<open>dumps\<close> and \<^verbatim>\<open>_format_list\<close> call each other. \<open>dumps_lines\<close> is the list \<^verbatim>\<open>lines\<close> that the
  loop of \<^verbatim>\<open>dumps\<close> builds, one entry of the dict after the other, and \<open>format_items\<close> the
  lines that the loop of \<^verbatim>\<open>_format_list\<close> appends for the items of a complex list. The
  indentation string is \<^verbatim>\<open>'  ' * indent\<close>.
\<close>

function dumps :: "('f \<Rightarrow> string) \<Rightarrow> 'f dict \<Rightarrow> nat \<Rightarrow> string"
  and dumps_lines :: "('f \<Rightarrow> string) \<Rightarrow> 'f dict \<Rightarrow> nat \<Rightarrow> string list"
  and format_list :: "('f \<Rightarrow> string) \<Rightarrow> string \<Rightarrow> 'f ndf_value list \<Rightarrow> string \<Rightarrow> string"
  and format_items :: "('f \<Rightarrow> string) \<Rightarrow> 'f ndf_value list \<Rightarrow> string \<Rightarrow> string list"
where
  "dumps fs data indent = join ''\<newline>'' (dumps_lines fs data indent)"
| "dumps_lines fs [] indent = []"
| "dumps_lines fs ((key, v) # rest) indent =
     (let indent_str = replicate (2 * indent) (CHR '' '') in
      (case v of
         VMap d \<Rightarrow> [indent_str @ key @ '':'', dumps fs d (indent + 1)]
       | VList xs \<Rightarrow> [format_list fs key xs indent_str]
       | VStr s \<Rightarrow>
           [if CHR ''\<newline>'' \<in> set s then format_multiline key s indent_str
            else indent_str @ key @ '': '' @ py_str fs v]
       | _ \<Rightarrow> [indent_str @ key @ '': '' @ py_str fs v])
      @ dumps_lines fs rest indent)"
| "format_list fs key val indent_str =
     (if list_all is_simple val
      then indent_str @ key @ '': '' @ join '', '' (map (py_str fs) val)
      else join ''\<newline>'' ((indent_str @ key @ '':'') # format_items fs val indent_str))"
| "format_items fs [] indent_str = []"
| "format_items fs (item # items) indent_str =
     (case item of
        VMap d \<Rightarrow> dumps fs d (length indent_str div 2 + 1)
      | _ \<Rightarrow> indent_str @ ''  - '' @ py_str fs item)
     # format_items fs items indent_str"
  by pat_completeness auto
termination
  by (relation "measure (\<lambda>x. case x of
      Inl (Inl (fs, d, i)) \<Rightarrow> 2 * size_list (size_prod (\<lambda>_. 0) size) d + 1
    | Inl (Inr (fs, d, i)) \<Rightarrow> 2 * size_list (size_prod (\<lambda>_. 0) size) d
    | Inr (Inl (fs, k, xs, i)) \<Rightarrow> 2 * size_list size xs + 1
    | Inr (Inr (fs, xs, i)) \<Rightarrow> 2 * size_list size xs)") auto

section \<open>A float reader for the examples\<close>

text \<open>
  The examples need one reader in place of the parameter \<open>fl\<close> and one printer in place
  of \<open>fs\<close>. \<open>symbolic_float\<close> accepts the texts that \<^verbatim>\<open>float()\<close> accepts (an optional sign,
  then \<^verbatim>\<open>inf\<close>, \<^verbatim>\<open>infinity\<close> or \<^verbatim>\<open>nan\<close> in any case, or digits with an optional point and
  exponent, single underscores allowed between digits) and keeps the accepted text in
  place of the number it denotes; \<open>symbolic_float_str\<close> gives that text back. No example
  below reads or prints a float.
\<close>

definition is_digitpart :: "string \<Rightarrow> bool" where
  "is_digitpart s \<longleftrightarrow> py_digits 0 s \<noteq> None"

definition is_exponent :: "string \<Rightarrow> bool" where
  "is_exponent e =
     (case e of [] \<Rightarrow> False
      | c # cs \<Rightarrow> if c = CHR ''+'' \<or> c = CHR ''-'' then is_digitpart cs else is_digitpart e)"

definition is_number :: "string \<Rightarrow> bool" where
  "is_number m =
     (if CHR ''.'' \<in> set m
      then (let a = takeWhile (\<lambda>c. c \<noteq> CHR ''.'') m; b = tl (dropWhile (\<lambda>c. c \<noteq> CHR ''.'') m)
            in (a = [] \<or> is_digitpart a) \<and> (b = [] \<or> is_digitpart b) \<and> (a \<noteq> [] \<or> b \<noteq> []))
      else is_digitpart m)"

definition is_floatnumber :: "string \<Rightarrow> bool" where
  "is_floatnumber s =
     (let m = takeWhile (\<lambda>c. c \<noteq> CHR ''e'' \<and> c \<noteq> CHR ''E'') s;
          r = dropWhile (\<lambda>c. c \<noteq> CHR ''e'' \<and> c \<noteq> CHR ''E'') s
      in is_number m \<and> (r = [] \<or> is_exponent (tl r)))"

definition is_floatvalue :: "string \<Rightarrow> bool" where
  "is_floatvalue s =
     (let t = strip s;
          u = (case t of [] \<Rightarrow> t | c # cs \<Rightarrow> if c = CHR ''+'' \<or> c = CHR ''-'' then cs else t)
      in lower u \<in> {''inf'', ''infinity'', ''nan''} \<or> is_floatnumber u)"

definition symbolic_float :: "string \<Rightarrow> string option" where
  "symbolic_float s = (if is_floatvalue s then Some (strip s) else None)"

definition symbolic_float_str :: "string \<Rightarrow> string" where
  "symbolic_float_str x = x"

section \<open>Evaluating the definitions\<close>

text \<open>
  The equations that compute the parser on a concrete text. The loops' equations are
  unconditional, so they are given to the simplifier only where the input is concrete.
\<close>

lemmas eval_defs =
  parse_def parse_block_def parse_block_loop.simps parse_value_def parse_simple_value_def
  strip_def lstrip_def rstrip_def isspace_def startswith_def endswith_def slice_1_m1_def
  get_indent_def remove_inline_comment_def index_of_def split_key_value_def split_once_def
  re_split.simps is_sep_def lower_def lower_char_def is_upper_def py_int_def is_digit_def
  digit_val_def parse_multiline_def multiline_loop.simps nested_loop.simps Let_def

section \<open>Properties of the scalar parser\<close>

lemma lower_Cons: "lower (c # cs) = lower_char c # lower cs"
  by (simp add: lower_def)

lemma lower_Nil: "lower [] = []"
  by (simp add: lower_def)

lemma lower_char_quotes: "lower_char (CHR 0x22) = CHR 0x22" "lower_char (CHR 0x27) = CHR 0x27"
  by (simp_all add: lower_char_def is_upper_def)

lemma startswith_char: "startswith [q] s \<longleftrightarrow> (\<exists>t. s = q # t)"
  by (cases s) (auto simp: startswith_def)

lemma quoted_lower_hd:
  assumes "startswith [q] val" and "q = CHR 0x22 \<or> q = CHR 0x27"
  shows "\<exists>t. lower val = q # t"
  using assms by (auto simp: startswith_char lower_Cons lower_char_quotes)

lemma literal_not_quoted:
  assumes "lower val \<in> {''yes'', ''true'', ''no'', ''false'', ''null'', ''none'', ''-''}"
  shows "\<not> startswith [CHR 0x22] val" and "\<not> startswith [CHR 0x27] val"
proof -
  show "\<not> startswith [CHR 0x22] val"
  proof
    assume "startswith [CHR 0x22] val"
    then obtain t where "lower val = CHR 0x22 # t" using quoted_lower_hd by blast
    with assms show False by auto
  qed
  show "\<not> startswith [CHR 0x27] val"
  proof
    assume "startswith [CHR 0x27] val"
    then obtain t where "lower val = CHR 0x27 # t" using quoted_lower_hd by blast
    with assms show False by auto
  qed
qed

text \<open>
  C8. The scalar parser recognises the boolean and null literals in any case: a value whose
  lower-cased text is \<^verbatim>\<open>yes\<close> or \<^verbatim>\<open>true\<close> is Bool true, one whose lower-cased text is
  \<^verbatim>\<open>no\<close> or \<^verbatim>\<open>false\<close> is Bool false, and one whose lower-cased text is \<^verbatim>\<open>null\<close>, \<^verbatim>\<open>none\<close>
  or \<^verbatim>\<open>-\<close> is Null. The witness reads \<^verbatim>\<open>yes\<close>, \<^verbatim>\<open>YES\<close>, \<^verbatim>\<open>Yes\<close>, \<^verbatim>\<open>-\<close>, \<^verbatim>\<open>null\<close> and \<^verbatim>\<open>NONE\<close>.
\<close>

theorem scalar_literals_any_case:
  "(lower (strip v) \<in> {''yes'', ''true''} \<longrightarrow> parse_simple_value fl v = VBool True) \<and>
   (lower (strip v) \<in> {''no'', ''false''} \<longrightarrow> parse_simple_value fl v = VBool False) \<and>
   (lower (strip v) \<in> {''null'', ''none'', ''-''} \<longrightarrow> parse_simple_value fl v = VNull)"
proof (intro conjI impI)
  assume a: "lower (strip v) \<in> {''yes'', ''true''}"
  then have "\<not> startswith [CHR 0x22] (strip v)" "\<not> startswith [CHR 0x27] (strip v)"
    using literal_not_quoted [of "strip v"] by auto
  with a show "parse_simple_value fl v = VBool True"
    by (simp add: parse_simple_value_def)
next
  assume a: "lower (strip v) \<in> {''no'', ''false''}"
  then have "\<not> startswith [CHR 0x22] (strip v)" "\<not> startswith [CHR 0x27] (strip v)"
    using literal_not_quoted [of "strip v"] by auto
  moreover from a have "lower (strip v) \<notin> {''yes'', ''true''}" by auto
  ultimately show "parse_simple_value fl v = VBool False"
    using a by (simp add: parse_simple_value_def)
next
  assume a: "lower (strip v) \<in> {''null'', ''none'', ''-''}"
  then have "\<not> startswith [CHR 0x22] (strip v)" "\<not> startswith [CHR 0x27] (strip v)"
    using literal_not_quoted [of "strip v"] by auto
  moreover from a have "lower (strip v) \<notin> {''yes'', ''true''}" "lower (strip v) \<notin> {''no'', ''false''}"
    by auto
  ultimately show "parse_simple_value fl v = VNull"
    using a by (simp add: parse_simple_value_def)
qed

lemma lower_strip_examples:
  "lower (strip ''yes'') = ''yes''" "lower (strip ''YES'') = ''yes''"
  "lower (strip ''Yes'') = ''yes''" "lower (strip ''-'') = ''-''"
  "lower (strip ''null'') = ''null''" "lower (strip ''NONE'') = ''none''"
  by code_simp+

theorem scalar_literals_any_case_witness:
  "parse_simple_value symbolic_float ''yes'' = VBool True \<and>
   parse_simple_value symbolic_float ''YES'' = VBool True \<and>
   parse_simple_value symbolic_float ''Yes'' = VBool True \<and>
   parse_simple_value symbolic_float ''-'' = VNull \<and>
   parse_simple_value symbolic_float ''null'' = VNull \<and>
   parse_simple_value symbolic_float ''NONE'' = VNull"
  using scalar_literals_any_case [of "''yes''" symbolic_float]
    scalar_literals_any_case [of "''YES''" symbolic_float]
    scalar_literals_any_case [of "''Yes''" symbolic_float]
    scalar_literals_any_case [of "''-''" symbolic_float]
    scalar_literals_any_case [of "''null''" symbolic_float]
    scalar_literals_any_case [of "''NONE''" symbolic_float]
  by (simp add: lower_strip_examples)

text \<open>
  C10. A value that is one quote character starts and ends with that character, so the
  scalar parser takes it for a quoted text and returns its empty interior: the line
  \<^verbatim>\<open>a: "\<close> binds \<^verbatim>\<open>a\<close> to the empty String, and so does the scalar parser on a lone double
  or single quote.
\<close>

theorem lone_quote_is_empty_string:
  \<open>parse fl ''a: "'' = Inr [(''a'', VStr [])] \<and>
   parse_simple_value fl [CHR 0x22] = VStr [] \<and>
   parse_simple_value fl [CHR 0x27] = VStr []\<close>
  by (simp add: eval_defs)

section \<open>Properties of the value parser\<close>

text \<open>
  C7, as the code has it. The value \<^verbatim>\<open>"x, y"\<close> contains a comma, so the value parser splits
  it on the run of comma and space before any quote is looked at: \<^verbatim>\<open>a: "x, y"\<close> binds \<^verbatim>\<open>a\<close> to
  the list of the two Strings \<^verbatim>\<open>"x\<close> and \<^verbatim>\<open>y"\<close>, each keeping its quote character, and
  \<^verbatim>\<open>a: x, y\<close> binds \<^verbatim>\<open>a\<close> to the list of the Strings \<^verbatim>\<open>x\<close> and \<^verbatim>\<open>y\<close>.
\<close>

theorem quoted_comma_value_is_split:
  \<open>parse fl ''a: "x, y"'' =
     Inr [(''a'', VList [VStr [CHR 0x22, CHR ''x''], VStr [CHR ''y'', CHR 0x22]])] \<and>
   parse fl ''a: x, y'' = Inr [(''a'', VList [VStr ''x'', VStr ''y''])]\<close>
  by (simp add: eval_defs)

text \<open>
  C7 as stated fails: the quoted value with a comma is not read as the single String
  \<^verbatim>\<open>x, y\<close>.
\<close>

theorem quoted_comma_value_counterexample:
  \<open>parse symbolic_float ''a: "x, y"'' \<noteq> Inr [(''a'', VStr ''x, y'')]\<close>
  by (simp add: eval_defs)

section \<open>Properties of the serializer\<close>

lemma dumps_lines_append:
  "dumps_lines fs (xs @ ys) indent = dumps_lines fs xs indent @ dumps_lines fs ys indent"
  by (induction xs) (auto simp: Let_def)

text \<open>
  C4, as the code has it. Wherever a dict binds a key to \<^verbatim>\<open>None\<close>, \<^verbatim>\<open>dumps\<close> appends the one
  line \<^verbatim>\<open>key: None\<close> (the \<^verbatim>\<open>str\<close> of \<^verbatim>\<open>None\<close> after the colon); wherever it binds a key to an
  empty dict, \<^verbatim>\<open>dumps\<close> appends the bare line \<^verbatim>\<open>key:\<close> and then the rendering of the empty
  dict, which is an empty line. Alone in a document the first is the text \<^verbatim>\<open>key: None\<close> and
  the second is \<^verbatim>\<open>key:\<close> followed by a line break.
\<close>

theorem null_and_empty_map_lines:
  "dumps_lines fs (before @ (k, VNull) # rest) indent =
     dumps_lines fs before indent
       @ [replicate (2 * indent) (CHR '' '') @ k @ '': None''] @ dumps_lines fs rest indent \<and>
   dumps_lines fs (before @ (k, VMap []) # rest) indent =
     dumps_lines fs before indent
       @ [replicate (2 * indent) (CHR '' '') @ k @ '':'', []] @ dumps_lines fs rest indent \<and>
   dumps fs [(k, VNull)] 0 = k @ '': None'' \<and>
   dumps fs [(k, VMap [])] 0 = k @ '':\<newline>''"
  by (simp add: dumps_lines_append py_str_def)

text \<open>
  C4 as stated fails: a key bound to \<^verbatim>\<open>None\<close> is not rendered as the bare line \<^verbatim>\<open>k:\<close>, and
  its rendering differs from that of a key bound to an empty dict.
\<close>

theorem null_and_empty_map_counterexample:
  "dumps symbolic_float_str [(''k'', VNull)] 0 = ''k: None'' \<and>
   dumps symbolic_float_str [(''k'', VMap [])] 0 = ''k:\<newline>'' \<and>
   dumps symbolic_float_str [(''k'', VNull)] 0 \<noteq> dumps symbolic_float_str [(''k'', VMap [])] 0"
  by (simp add: py_str_def)

section \<open>Properties of the parser\<close>

lemma lstrip_space_prefix: "list_all isspace p \<Longrightarrow> lstrip (p @ t) = lstrip t"
  by (simp add: lstrip_def list_all_iff dropWhile_append2)

lemma rstrip_space_suffix: "list_all isspace s \<Longrightarrow> rstrip (t @ s) = rstrip t"
proof -
  assume "list_all isspace s"
  then have "\<And>x. x \<in> set (rev s) \<Longrightarrow> isspace x" by (simp add: list_all_iff)
  then have "dropWhile isspace (rev s @ rev t) = dropWhile isspace (rev t)"
    by (rule dropWhile_append2)
  then show ?thesis by (simp add: rstrip_def)
qed

lemma lstrip_all_space: "list_all isspace s \<Longrightarrow> lstrip s = []"
  by (simp add: lstrip_def list_all_iff)

lemma strip_space_suffix:
  assumes "list_all isspace s"
  shows "strip (t @ s) = strip t"
proof (cases "list_all isspace t")
  case True
  with assms have "list_all isspace (t @ s)" by simp
  then have "lstrip (t @ s) = []" by (rule lstrip_all_space)
  moreover from True have "lstrip t = []" by (rule lstrip_all_space)
  ultimately show ?thesis by (simp add: strip_def)
next
  case False
  then obtain x where "x \<in> set t" "\<not> isspace x" by (auto simp: list_all_iff)
  then have "lstrip (t @ s) = lstrip t @ s"
    by (simp add: lstrip_def dropWhile_append1)
  with assms show ?thesis by (simp add: strip_def rstrip_space_suffix)
qed

lemma strip_surrounding_space:
  "list_all isspace p \<Longrightarrow> list_all isspace s \<Longrightarrow> strip (p @ t @ s) = strip t"
proof -
  assume p: "list_all isspace p" and s: "list_all isspace s"
  have "strip (p @ t @ s) = rstrip (lstrip (t @ s))"
    using p by (simp add: strip_def lstrip_space_prefix)
  also have "\<dots> = strip (t @ s)" by (simp add: strip_def)
  also have "\<dots> = strip t" using s by (rule strip_space_suffix)
  finally show ?thesis .
qed

text \<open>
  C9. Whitespace and line breaks around the input are stripped before the text is split
  into lines: for every text \<open>t\<close> and all \<open>p\<close> and \<open>s\<close> made of whitespace characters only,
  \<open>parse (p + t + s)\<close> is \<open>parse t\<close>.
\<close>

theorem parse_ignores_surrounding_whitespace:
  "list_all isspace p \<Longrightarrow> list_all isspace s \<Longrightarrow> parse fl (p @ t @ s) = parse fl t"
  by (simp add: parse_def strip_surrounding_space)

theorem parse_ignores_surrounding_whitespace_witness:
  "list_all isspace '' \<newline>'' \<and> list_all isspace ''\<newline>\<newline>  '' \<and>
   parse symbolic_float ('' \<newline>'' @ ''a: 1\<newline>b:\<newline>  c: yes'' @ ''\<newline>\<newline>  '')
     = parse symbolic_float ''a: 1\<newline>b:\<newline>  c: yes'' \<and>
   parse symbolic_float ''a: 1\<newline>b:\<newline>  c: yes''
     = Inr [(''a'', VInt 1), (''b'', VMap [(''c'', VBool True)])]"
proof -
  have p: "list_all isspace '' \<newline>''" by (simp add: isspace_def)
  have s: "list_all isspace ''\<newline>\<newline>  ''" by (simp add: isspace_def)
  have v: "parse symbolic_float ''a: 1\<newline>b:\<newline>  c: yes''
     = Inr [(''a'', VInt 1), (''b'', VMap [(''c'', VBool True)])]"
    by (simp add: eval_defs)
  from parse_ignores_surrounding_whitespace [OF p s, of symbolic_float "''a: 1\<newline>b:\<newline>  c: yes''"] p s v
  show ?thesis by blast
qed






text \<open>One step of the loop of the block parser, branch by branch.\<close>

lemma block_end:
  "\<not> i < length lines \<Longrightarrow> parse_block_loop fl lines i si r = Inr (r, i)"
  by (subst parse_block_loop.simps) simp

lemma block_skip_blank:
  "i < length lines \<Longrightarrow> \<not> content_line (lines ! i) \<Longrightarrow>
   parse_block_loop fl lines i si r = parse_block_loop fl lines (i + 1) si r"
  by (subst parse_block_loop.simps) (auto simp: content_line_def)


lemma block_skip_deeper:
  "i < length lines \<Longrightarrow> content_line (lines ! i) \<Longrightarrow> si < get_indent (lines ! i) \<Longrightarrow>
   parse_block_loop fl lines i si r = parse_block_loop fl lines (i + 1) si r"
  by (subst parse_block_loop.simps) (simp add: content_line_def)


lemma block_multiline:
  "i < length lines \<Longrightarrow> content_line (lines ! i) \<Longrightarrow> get_indent (lines ! i) = si \<Longrightarrow>
   remove_inline_comment (lines ! i) = Inr b \<Longrightarrow> CHR '':'' \<in> set (strip b) \<Longrightarrow>
   split_key_value (strip b) = Inr (k, ''|'') \<Longrightarrow>
   parse_block_loop fl lines i si r =
     parse_block_loop fl lines (snd (parse_multiline lines i si)) si
       (AList.update k (VStr (fst (parse_multiline lines i si))) r)"
  by (subst parse_block_loop.simps) (simp add: content_line_def)

lemma block_nested:
  "i < length lines \<Longrightarrow> content_line (lines ! i) \<Longrightarrow> get_indent (lines ! i) = si \<Longrightarrow>
   remove_inline_comment (lines ! i) = Inr b \<Longrightarrow> CHR '':'' \<in> set (strip b) \<Longrightarrow>
   split_key_value (strip b) = Inr (k, []) \<Longrightarrow>
   fst (nested_loop lines (i + 1) si []) \<noteq> [] \<Longrightarrow>
   parse_block_loop fl (fst (nested_loop lines (i + 1) si [])) 0 (si + 2) [] = Inr nested \<Longrightarrow>
   parse_block_loop fl lines i si r =
     parse_block_loop fl lines (snd (nested_loop lines (i + 1) si [])) si
       (AList.update k (VMap (fst nested)) r)"
  by (subst parse_block_loop.simps) (simp add: content_line_def)






section \<open>Lines and keys\<close>

lemma split_char_nonempty: "split_char c s \<noteq> []"
  by (induction s) auto

lemma split_char_append:
  "split_char c (a @ c # b) = split_char c a @ split_char c b"
proof (induction a)
  case Nil
  show ?case by simp
next
  case (Cons x a)
  then show ?case using split_char_nonempty [of c a] by (cases "split_char c a") auto
qed

lemma split_char_no_sep: "c \<notin> set s \<Longrightarrow> split_char c s = [s]"
  by (induction s) auto

lemma split_join:
  "xs \<noteq> [] \<Longrightarrow> split_char c (join [c] xs) = concat (map (split_char c) xs)"
proof (induction "[c]" xs rule: join.induct)
  case 1
  then show ?case by simp
next
  case (2 x)
  show ?case by simp
next
  case (3 x y ys)
  then show ?case by (simp add: split_char_append)
qed

lemma lstrip_id: "s = [] \<or> \<not> isspace (hd s) \<Longrightarrow> lstrip s = s"
  by (cases s) (auto simp: lstrip_def)

lemma rstrip_id: "s = [] \<or> \<not> isspace (last s) \<Longrightarrow> rstrip s = s"
proof (cases "s = []")
  case True
  then show ?thesis by (simp add: rstrip_def)
next
  case False
  assume "s = [] \<or> \<not> isspace (last s)"
  with False have "\<not> isspace (hd (rev s))" by (simp add: hd_rev)
  moreover from False have "rev s \<noteq> []" by simp
  ultimately have "dropWhile isspace (rev s) = rev s" by (cases "rev s") auto
  then show ?thesis by (simp add: rstrip_def)
qed

lemma strip_id: "s = [] \<or> (\<not> isspace (hd s) \<and> \<not> isspace (last s)) \<Longrightarrow> strip s = s"
  by (auto simp: strip_def lstrip_id rstrip_id)

lemma rstrip_append:
  assumes "\<exists>x \<in> set b. \<not> isspace x"
  shows "rstrip (a @ b) = a @ rstrip b"
proof -
  from assms obtain x where "x \<in> set (rev b)" "\<not> isspace x" by auto
  then have "dropWhile isspace (rev b @ rev a) = dropWhile isspace (rev b) @ rev a"
    by (rule dropWhile_append1)
  then show ?thesis by (simp add: rstrip_def)
qed

lemma rstrip_all_space: "list_all isspace s \<Longrightarrow> rstrip s = []"
  by (simp add: rstrip_def list_all_iff)

lemma rstrip_last: "rstrip s \<noteq> [] \<Longrightarrow> \<not> isspace (last (rstrip s))"
proof -
  assume a: "rstrip s \<noteq> []"
  then have ne: "dropWhile isspace (rev s) \<noteq> []" by (simp add: rstrip_def)
  then have "\<not> isspace (hd (dropWhile isspace (rev s)))" by (rule hd_dropWhile)
  with ne show ?thesis by (simp add: rstrip_def last_rev)
qed

lemma rstrip_idem: "rstrip (rstrip s) = rstrip s"
  by (cases "rstrip s = []") (auto simp: rstrip_id rstrip_last)

lemma rstrip_nonempty: "\<exists>x \<in> set s. \<not> isspace x \<Longrightarrow> rstrip s \<noteq> []"
  by (auto simp: rstrip_def dropWhile_eq_Nil_conv)

lemma get_indent_takeWhile: "get_indent s = length (takeWhile isspace s)"
proof -
  have "length s = length (takeWhile isspace s) + length (dropWhile isspace s)"
    by (metis length_append takeWhile_dropWhile_id)
  then show ?thesis by (simp add: get_indent_def lstrip_def)
qed

lemma isspace_space: "isspace (CHR '' '')"
  by (simp add: isspace_def)

lemma takeWhile_replicate_space:
  "takeWhile isspace (replicate n (CHR '' '') @ s) = replicate n (CHR '' '') @ takeWhile isspace s"
  by (induction n) (simp_all add: isspace_space)

lemma get_indent_replicate_add:
  "get_indent (replicate n (CHR '' '') @ s) = n + get_indent s"
  by (simp add: get_indent_takeWhile takeWhile_replicate_space)

lemma get_indent_nonspace: "s = [] \<or> \<not> isspace (hd s) \<Longrightarrow> get_indent s = 0"
  by (cases s) (auto simp: get_indent_takeWhile)

lemma get_indent_replicate:
  "s = [] \<or> \<not> isspace (hd s) \<Longrightarrow> get_indent (replicate n (CHR '' '') @ s) = n"
  by (simp add: get_indent_replicate_add get_indent_nonspace)

lemma lstrip_replicate: "lstrip (replicate n (CHR '' '') @ s) = lstrip s"
  by (induction n) (simp_all add: lstrip_def isspace_space)

lemma strip_replicate: "strip (replicate n (CHR '' '') @ s) = strip s"
  by (simp add: strip_def lstrip_replicate)

text \<open>
  A key that a line can carry and the block parser gives back: not empty, no whitespace
  at either end, and no colon, comment marker or line break inside.
\<close>

definition safe_key :: "string \<Rightarrow> bool" where
  "safe_key k \<longleftrightarrow> k \<noteq> [] \<and> \<not> isspace (hd k) \<and> \<not> isspace (last k) \<and>
     CHR '':'' \<notin> set k \<and> CHR ''#'' \<notin> set k \<and> CHR ''\<newline>'' \<notin> set k"

lemma rstrip_Cons_nonspace: "\<not> isspace c \<Longrightarrow> rstrip (c # s) = c # rstrip s"
proof -
  assume c: "\<not> isspace c"
  then have "rstrip ([c] @ s) = [c] @ rstrip s"
  proof (cases "list_all isspace s")
    case True
    then have "rstrip ([c] @ s) = rstrip [c]" by (rule rstrip_space_suffix)
    with True c show ?thesis by (simp add: rstrip_all_space rstrip_id)
  next
    case False
    then have "\<exists>x\<in>set s. \<not> isspace x" by (simp add: list_all_iff)
    then show ?thesis by (rule rstrip_append)
  qed
  then show ?thesis by simp
qed

lemma rstrip_prefix_nonspace:
  "s \<noteq> [] \<Longrightarrow> \<not> isspace (last s) \<Longrightarrow> rstrip (s @ t) = s @ rstrip t"
proof (cases "list_all isspace t")
  case True
  assume "s \<noteq> []" "\<not> isspace (last s)"
  with True show ?thesis by (simp add: rstrip_space_suffix rstrip_all_space rstrip_id)
next
  case False
  then have "\<exists>x\<in>set t. \<not> isspace x" by (simp add: list_all_iff)
  then show ?thesis by (rule rstrip_append)
qed

lemma set_rstrip: "set (rstrip s) \<subseteq> set s"
  using set_dropWhileD [of _ isspace "rev s"] by (auto simp: rstrip_def)

lemma set_lstrip: "set (lstrip s) \<subseteq> set s"
  using set_dropWhileD [of _ isspace s] by (auto simp: lstrip_def)

lemma set_strip: "set (strip s) \<subseteq> set s"
  using set_rstrip [of "lstrip s"] set_lstrip [of s] by (auto simp: strip_def)

lemma lstrip_hd: "lstrip s \<noteq> [] \<Longrightarrow> \<not> isspace (hd (lstrip s))"
  unfolding lstrip_def by (rule hd_dropWhile)

lemma lstrip_all_space_iff: "lstrip s = [] \<longleftrightarrow> list_all isspace s"
  by (simp add: lstrip_def dropWhile_eq_Nil_conv list_all_iff)

lemma rstrip_all_space_iff: "rstrip s = [] \<longleftrightarrow> list_all isspace s"
  by (simp add: rstrip_def dropWhile_eq_Nil_conv list_all_iff)

lemma lstrip_rstrip_commute: "lstrip (rstrip s) = rstrip (lstrip s)"
proof (cases "list_all isspace s")
  case True
  then have a: "rstrip s = []" and b: "lstrip s = []"
    by (simp_all add: rstrip_all_space lstrip_all_space)
  have "lstrip [] = []" "rstrip [] = []" by (simp_all add: lstrip_def rstrip_def)
  with a b show ?thesis by simp
next
  case False
  define w where "w = takeWhile isspace s"
  define m where "m = lstrip s"
  have s: "s = w @ m" by (simp add: w_def m_def lstrip_def)
  have w: "list_all isspace w"
    using set_takeWhileD [of _ isspace s] by (auto simp: w_def list_all_iff)
  from False have mne: "m \<noteq> []" by (simp add: m_def lstrip_all_space_iff)
  then have hm: "\<not> isspace (hd m)" unfolding m_def by (rule lstrip_hd)
  have "\<exists>x\<in>set m. \<not> isspace x" using mne hm by (cases m) auto
  then have r: "rstrip (w @ m) = w @ rstrip m" and rne: "rstrip m \<noteq> []"
    by (simp_all add: rstrip_append rstrip_nonempty)
  from mne hm have "rstrip m = hd m # rstrip (tl m)"
    using rstrip_Cons_nonspace [of "hd m" "tl m"] by simp
  then have "\<not> isspace (hd (rstrip m))" using hm by simp
  then have "lstrip (rstrip m) = rstrip m" by (simp add: lstrip_id)
  moreover have "lstrip (w @ rstrip m) = lstrip (rstrip m)" using w by (rule lstrip_space_prefix)
  ultimately have "lstrip (rstrip s) = rstrip m" using s r by simp
  then show ?thesis by (simp add: m_def)
qed

lemma strip_rstrip: "strip (rstrip s) = strip s"
  by (simp add: strip_def lstrip_rstrip_commute rstrip_idem)

lemma split_once_colon:
  "CHR '':'' \<notin> set k \<Longrightarrow> split_once (CHR '':'') (k @ CHR '':'' # r) = [k, r]"
proof -
  assume "CHR '':'' \<notin> set k"
  then have a: "\<And>x. x \<in> set k \<Longrightarrow> x \<noteq> CHR '':''" by auto
  have "takeWhile (\<lambda>x. x \<noteq> CHR '':'') (k @ CHR '':'' # r) = k"
    using takeWhile_append2 [of k "\<lambda>x. x \<noteq> CHR '':''" "CHR '':'' # r"] a by simp
  moreover have "dropWhile (\<lambda>x. x \<noteq> CHR '':'') (k @ CHR '':'' # r) = CHR '':'' # r"
    using dropWhile_append2 [of k "\<lambda>x. x \<noteq> CHR '':''" "CHR '':'' # r"] a by simp
  ultimately show ?thesis by (simp add: split_once_def)
qed

text \<open>The line of a key: indentation, key, colon and the rest.\<close>

lemma key_line_strip:
  assumes "safe_key k"
  shows "strip (replicate n (CHR '' '') @ k @ CHR '':'' # r) = k @ CHR '':'' # rstrip r"
proof -
  have c: "\<not> isspace (CHR '':'')" by (simp add: isspace_def)
  have "strip (replicate n (CHR '' '') @ k @ CHR '':'' # r) = strip (k @ CHR '':'' # r)"
    by (rule strip_replicate)
  also have "\<dots> = rstrip (k @ CHR '':'' # r)"
    using assms by (cases k) (auto simp: strip_def lstrip_def safe_key_def)
  also have "\<dots> = k @ rstrip (CHR '':'' # r)"
    using assms by (simp add: rstrip_prefix_nonspace safe_key_def)
  also have "\<dots> = k @ CHR '':'' # rstrip r" using c by (simp add: rstrip_Cons_nonspace)
  finally show ?thesis .
qed

lemma key_line:
  fixes n :: nat
  assumes k: "safe_key k" and r: "CHR ''#'' \<notin> set r"
  defines "line \<equiv> replicate n (CHR '' '') @ k @ CHR '':'' # r"
  shows "content_line line" and "get_indent line = n"
    and "remove_inline_comment line = Inr line"
    and "CHR '':'' \<in> set (strip line)"
    and "split_key_value (strip line) = Inr (k, strip r)"
proof -
  have st: "strip line = k @ CHR '':'' # rstrip r"
    unfolding line_def using k by (rule key_line_strip)
  from k have kne: "k \<noteq> []" and hk: "\<not> isspace (hd k)" and lk: "\<not> isspace (last k)"
    and kc: "CHR '':'' \<notin> set k" and kh: "CHR ''#'' \<notin> set k"
    by (simp_all add: safe_key_def)
  from kne kh have "hd k \<noteq> CHR ''#''" by (cases k) auto
  with kne show "content_line line"
    by (cases k) (auto simp: content_line_def st startswith_def)
  from kne hk show "get_indent line = n"
    unfolding line_def using get_indent_replicate [of "k @ CHR '':'' # r" n] by simp
  from kh r show "remove_inline_comment line = Inr line"
    by (simp add: remove_inline_comment_def line_def)
  show "CHR '':'' \<in> set (strip line)" by (simp add: st)
  from kne hk lk have "strip k = k" by (simp add: strip_id)
  with kc show "split_key_value (strip line) = Inr (k, strip r)"
    by (simp add: st split_key_value_def split_once_colon strip_rstrip)
qed

section \<open>Multi-line text blocks\<close>

lemma strip_bar: "strip '' |'' = ''|''"
  by (simp add: strip_def lstrip_def rstrip_def isspace_def)

lemma newline_space: "isspace (CHR ''\<newline>'')"
  by (simp add: isspace_def)

text \<open>
  C3, as the code has it. Where a line \<^verbatim>\<open>key: |\<close> is followed by exactly two lines indented
  by 2, the second of them blank, the blank line is not kept: it goes with the whitespace
  that \<open>parse\<close> strips from the end of the input (and \<^verbatim>\<open>_parse_multiline\<close> trims the end of
  the joined text as well). The key is bound to the text of the first line alone, without
  its trailing whitespace and with no line break.
\<close>

theorem multiline_trailing_blank_trimmed:
  assumes k: "safe_key k" and s: "CHR ''\<newline>'' \<notin> set s"
  shows "parse fl (k @ '': |\<newline>  '' @ s @ ''\<newline>  '') = Inr [(k, VStr (rstrip s))]"
proof -
  define kl where "kl = k @ '': |''"
  have kl0: "kl = replicate 0 (CHR '' '') @ k @ CHR '':'' # '' |''" by (simp add: kl_def)
  have h: "CHR ''#'' \<notin> set '' |''" by simp
  note kf = key_line [OF k h, of 0, folded kl0]
  have skl: "strip kl = kl"
    using key_line_strip [OF k, of 0 "'' |''"] by (simp add: kl_def rstrip_def isspace_def)
  have nkl: "CHR ''\<newline>'' \<notin> set kl" using k by (simp add: kl_def safe_key_def)
  have step: "\<And>lines. lines \<noteq> [] \<Longrightarrow> lines ! 0 = kl \<Longrightarrow>
      parse_block_loop fl lines 0 0 [] =
        parse_block_loop fl lines (snd (parse_multiline lines 0 0)) 0
          (AList.update k (VStr (fst (parse_multiline lines 0 0))) [])"
    using kf by (intro block_multiline [where b = kl]) (simp_all add: strip_bar)
  show ?thesis
  proof (cases "list_all isspace s")
    case True
    then have "list_all isspace (''\<newline>  '' @ s @ ''\<newline>  '')"
      by (simp add: isspace_space newline_space)
    then have "strip (kl @ (''\<newline>  '' @ s @ ''\<newline>  '')) = strip kl"
      by (rule strip_space_suffix)
    with skl have "strip (kl @ (''\<newline>  '' @ s @ ''\<newline>  '')) = kl" by simp
    moreover have "kl @ (''\<newline>  '' @ s @ ''\<newline>  '') = k @ '': |\<newline>  '' @ s @ ''\<newline>  ''"
      by (simp add: kl_def)
    ultimately have st: "strip (k @ '': |\<newline>  '' @ s @ ''\<newline>  '') = kl" by simp
    have ls: "split_char (CHR ''\<newline>'') kl = [kl]" using nkl by (rule split_char_no_sep)
    have ml: "parse_multiline [kl] 0 0 = ([], 1)"
      by (simp add: parse_multiline_def multiline_loop.simps rstrip_def)
    from True have "rstrip s = []" by (rule rstrip_all_space)
    then show ?thesis
      unfolding parse_def parse_block_def st ls
      using step [of "[kl]"] by (simp add: ml block_end)
  next
    case False
    then have ex: "\<exists>x\<in>set s. \<not> isspace x" by (simp add: list_all_iff)
    define rs where "rs = rstrip s"
    have rne: "rs \<noteq> []" unfolding rs_def using ex by (rule rstrip_nonempty)
    have nrs: "CHR ''\<newline>'' \<notin> set rs" using s set_rstrip [of s] by (auto simp: rs_def)
    have "lstrip (k @ '': |\<newline>  '' @ s @ ''\<newline>  '') = k @ '': |\<newline>  '' @ s @ ''\<newline>  ''"
      using k by (intro lstrip_id) (cases k, auto simp: safe_key_def)
    moreover have "rstrip ((kl @ ''\<newline>  '' @ s) @ ''\<newline>  '') = rstrip (kl @ ''\<newline>  '' @ s)"
      by (intro rstrip_space_suffix) (simp add: isspace_space newline_space)
    moreover have "rstrip ((kl @ ''\<newline>  '') @ s) = (kl @ ''\<newline>  '') @ rstrip s"
      using ex by (rule rstrip_append)
    ultimately have st: "strip (k @ '': |\<newline>  '' @ s @ ''\<newline>  '') = kl @ CHR ''\<newline>'' # (''  '' @ rs)"
      by (simp add: strip_def kl_def rs_def)
    define l2 where "l2 = ''  '' @ rs"
    have st2: "strip (k @ '': |\<newline>  '' @ s @ ''\<newline>  '') = kl @ CHR ''\<newline>'' # l2"
      using st by (simp add: l2_def)
    have ls: "split_char (CHR ''\<newline>'') (kl @ CHR ''\<newline>'' # l2) = [kl, l2]"
      using nkl nrs by (simp add: split_char_append split_char_no_sep l2_def)
    have gi: "get_indent l2 = 2 + get_indent rs"
      using get_indent_replicate_add [of 2 rs] by (simp add: numeral_2_eq_2 l2_def)
    have len: "length l2 = 2 + length rs" and dr: "drop 2 l2 = rs" by (simp_all add: l2_def)
    have m2: "multiline_loop [kl, l2] (Suc (Suc 0)) 0 [rs] = ([rs], Suc (Suc 0))"
      by (subst multiline_loop.simps) simp
    have m1: "multiline_loop [kl, l2] (Suc 0) 0 [] = ([rs], Suc (Suc 0))"
      using rne dr by (subst multiline_loop.simps) (simp add: gi len numeral_2_eq_2 m2)
    have ml: "parse_multiline [kl, l2] 0 0 = (rs, 2)"
      by (simp add: parse_multiline_def m1 rs_def rstrip_idem)
    show ?thesis
      unfolding parse_def parse_block_def st2 ls
      using step [of "[kl, l2]"] by (simp add: ml block_end rs_def)
  qed
qed

theorem multiline_trailing_blank_trimmed_witness:
  "safe_key ''key'' \<and> CHR ''\<newline>'' \<notin> set ''hello'' \<and>
   parse symbolic_float ''key: |\<newline>  hello\<newline>  '' = Inr [(''key'', VStr ''hello'')]"
proof -
  have k: "safe_key ''key''" by (simp add: safe_key_def isspace_def)
  have s: "CHR ''\<newline>'' \<notin> set ''hello''" by simp
  have r: "rstrip ''hello'' = ''hello''" by (simp add: rstrip_def isspace_def)
  from multiline_trailing_blank_trimmed [OF k s, of symbolic_float] k s r
  show ?thesis by simp
qed

text \<open>
  C3 as stated fails: the value is the one-line String \<^verbatim>\<open>hello\<close>, not a two-line String
  with the blank line kept.
\<close>

theorem multiline_two_line_counterexample:
  "parse symbolic_float ''key: |\<newline>  hello\<newline>  '' = Inr [(''key'', VStr ''hello'')] \<and>
   split_char (CHR ''\<newline>'') ''hello'' = [''hello'']"
  by (simp add: eval_defs)

section \<open>Nested blocks\<close>

lemma split_join_lines:
  assumes "xs \<noteq> []" and "\<forall>l\<in>set xs. c \<notin> set l"
  shows "split_char c (join [c] xs) = xs"
proof -
  from assms(2) have "concat (map (split_char c) xs) = xs"
    by (induction xs) (simp_all add: split_char_no_sep)
  with assms(1) show ?thesis by (simp add: split_join)
qed

lemma join_Cons: "ys \<noteq> [] \<Longrightarrow> join sep (x # ys) = x @ sep @ join sep ys"
  by (cases ys) auto

lemma join_snoc: "xs \<noteq> [] \<Longrightarrow> join sep (xs @ [y]) = join sep xs @ sep @ y"
  by (induction sep xs rule: join.induct) (auto simp: join_Cons)

lemma join_butlast_last: "xs \<noteq> [] \<Longrightarrow> join sep xs = (if butlast xs = [] then last xs else join sep (butlast xs) @ sep @ last xs)"
proof -
  assume ne: "xs \<noteq> []"
  then have xs: "xs = butlast xs @ [last xs]" by simp
  show ?thesis
  proof (cases "butlast xs = []")
    case True
    with xs have "xs = [last xs]" by simp
    then have "join sep xs = join sep [last xs]" by simp
    with True show ?thesis by simp
  next
    case False
    then have "join sep (butlast xs @ [last xs]) = join sep (butlast xs) @ sep @ last xs"
      by (rule join_snoc)
    with xs False show ?thesis by simp
  qed
qed

lemma rstrip_join:
  assumes ne: "xs \<noteq> []" and ex: "\<exists>x\<in>set (last xs). \<not> isspace x"
  shows "rstrip (join sep xs) = join sep (butlast xs @ [rstrip (last xs)])"
proof (cases "butlast xs = []")
  case True
  with ne have "xs = [last xs]" by (metis append_butlast_last_id append_Nil)
  then have "join sep xs = last xs" by (metis join.simps(2))
  with True show ?thesis by simp
next
  case False
  with ne have "join sep xs = join sep (butlast xs) @ sep @ last xs"
    by (simp add: join_butlast_last)
  moreover have "rstrip ((join sep (butlast xs) @ sep) @ last xs)
      = (join sep (butlast xs) @ sep) @ rstrip (last xs)"
    using ex by (rule rstrip_append)
  moreover have "join sep (butlast xs @ [rstrip (last xs)]) = join sep (butlast xs) @ sep @ rstrip (last xs)"
    using False by (rule join_snoc)
  ultimately show ?thesis by simp
qed

lemma content_line_nonspace: "content_line l \<Longrightarrow> \<exists>x\<in>set l. \<not> isspace x"
proof -
  assume "content_line l"
  then have "strip l \<noteq> []" by (simp add: content_line_def)
  then have "lstrip l \<noteq> []" by (auto simp: strip_def rstrip_def)
  then have "\<not> list_all isspace l" by (simp add: lstrip_all_space_iff)
  then show ?thesis by (simp add: list_all_iff)
qed

lemma content_line_rstrip: "content_line (rstrip l) = content_line l"
  by (simp add: content_line_def strip_rstrip)

lemma get_indent_rstrip:
  assumes "\<exists>x\<in>set l. \<not> isspace x"
  shows "get_indent (rstrip l) = get_indent l"
proof -
  have "lstrip (rstrip l) = rstrip (lstrip l)" by (rule lstrip_rstrip_commute)
  define w where "w = takeWhile isspace l"
  have l: "l = w @ lstrip l" by (simp add: w_def lstrip_def)
  from assms have "\<not> list_all isspace l" by (simp add: list_all_iff)
  then have mne: "lstrip l \<noteq> []" by (simp add: lstrip_all_space_iff)
  then have hm: "\<not> isspace (hd (lstrip l))" by (rule lstrip_hd)
  from mne hm have ex: "\<exists>x\<in>set (lstrip l). \<not> isspace x" by (cases "lstrip l") auto
  then have "rstrip (w @ lstrip l) = w @ rstrip (lstrip l)" by (rule rstrip_append)
  with l have r: "rstrip l = w @ rstrip (lstrip l)" by simp
  from mne hm have "rstrip (lstrip l) = hd (lstrip l) # rstrip (tl (lstrip l))"
    using rstrip_Cons_nonspace [of "hd (lstrip l)" "tl (lstrip l)"] by simp
  then obtain y ys where ys: "rstrip (lstrip l) = y # ys" "\<not> isspace y" using hm by blast
  have wsp: "\<And>x. x \<in> set w \<Longrightarrow> isspace x" using set_takeWhileD [of _ isspace l] by (simp add: w_def)
  have "takeWhile isspace (w @ y # ys) = w" using wsp ys(2) by (simp add: takeWhile_append2)
  with r ys have "get_indent (rstrip l) = length w" by (simp add: get_indent_takeWhile)
  then show ?thesis by (simp add: get_indent_takeWhile w_def)
qed

text \<open>The scan of the nested-block parser over lines that all lie deeper than the key.\<close>

lemma nested_loop_collect:
  assumes "\<forall>l\<in>set mid. content_line l \<and> n < get_indent l"
      and "after = [] \<or> (content_line (hd after) \<and> get_indent (hd after) \<le> n)"
  shows "nested_loop (before @ mid @ after) (length before) n acc
           = (acc @ mid, length before + length mid)"
  using assms
proof (induction mid arbitrary: before acc)
  case Nil
  show ?case
  proof (cases after)
    case Nil
    then show ?thesis by (subst nested_loop.simps) simp
  next
    case (Cons p ps)
    with Nil.prems(2) have "content_line p" "get_indent p \<le> n" by simp_all
    with Cons show ?thesis
      by (subst nested_loop.simps) (simp add: content_line_def)
  qed
next
  case (Cons m ms)
  from Cons.prems(1) have m: "content_line m" "n < get_indent m" by simp_all
  from Cons.prems have "nested_loop ((before @ [m]) @ ms @ after) (length (before @ [m])) n (acc @ [m])
      = ((acc @ [m]) @ ms, length (before @ [m]) + length ms)"
    by (intro Cons.IH) simp_all
  then have ih: "nested_loop (before @ m # ms @ after) (Suc (length before)) n (acc @ [m])
      = (acc @ m # ms, Suc (length before + length ms))" by simp
  have nth: "(before @ m # ms @ after) ! length before = m" by simp
  show ?case
    using m ih
    by (subst nested_loop.simps) (simp add: content_line_def nth del: nth_append_length)
qed

lemma block_skip_all:
  assumes "\<forall>l\<in>set mid. \<not> content_line l \<or> si < get_indent l"
  shows "parse_block_loop fl (before @ mid) (length before) si r
           = Inr (r, length before + length mid)"
  using assms
proof (induction mid arbitrary: before)
  case Nil
  show ?case by (simp add: block_end)
next
  case (Cons m ms)
  from Cons.prems have "parse_block_loop fl ((before @ [m]) @ ms) (length (before @ [m])) si r
      = Inr (r, length (before @ [m]) + length ms)"
    by (intro Cons.IH) simp
  then have ih: "parse_block_loop fl (before @ m # ms) (Suc (length before)) si r
      = Inr (r, Suc (length before + length ms))" by simp
  have lt: "length before < length (before @ m # ms)" by simp
  have nth: "(before @ m # ms) ! length before = m" by simp
  from Cons.prems have "\<not> content_line m \<or> si < get_indent m" by simp
  then show ?case
  proof
    assume "\<not> content_line m"
    with lt nth have "parse_block_loop fl (before @ m # ms) (length before) si r
        = parse_block_loop fl (before @ m # ms) (length before + 1) si r"
      by (intro block_skip_blank) simp_all
    with ih show ?thesis by simp
  next
    assume d: "si < get_indent m"
    show ?thesis
    proof (cases "content_line m")
      case False
      with lt nth have "parse_block_loop fl (before @ m # ms) (length before) si r
          = parse_block_loop fl (before @ m # ms) (length before + 1) si r"
        by (intro block_skip_blank) simp_all
      with ih show ?thesis by simp
    next
      case True
      with lt nth d have "parse_block_loop fl (before @ m # ms) (length before) si r
          = parse_block_loop fl (before @ m # ms) (length before + 1) si r"
        by (intro block_skip_deeper) simp_all
      with ih show ?thesis by simp
    qed
  qed
qed

lemma strip_Nil: "strip [] = []"
  by (simp add: strip_def lstrip_def rstrip_def)

text \<open>
  C2, as the code has it. The nested-block parser does recurse at the key's indentation
  plus 2 whatever the children's indentation is, but the block parser skips every line
  that is indented deeper than the indentation it was called with. So a key at the top
  level whose children are all indented by more than 2 (by 4, say) is bound to an empty
  Map: not one child is read.
\<close>

theorem deeper_children_are_skipped:
  assumes k: "safe_key k" and ne: "children \<noteq> []"
      and ch: "list_all (\<lambda>c. content_line c \<and> 2 < get_indent c \<and> CHR ''\<newline>'' \<notin> set c) children"
  shows "parse fl (join ''\<newline>'' ((k @ '':'') # children)) = Inr [(k, VMap [])]"
proof -
  define kl where "kl = k @ '':''"
  have kl0: "kl = replicate 0 (CHR '' '') @ k @ CHR '':'' # []" by (simp add: kl_def)
  have h: "CHR ''#'' \<notin> set []" by simp
  note kf = key_line [OF k h, of 0, folded kl0]
  have nkl: "CHR ''\<newline>'' \<notin> set kl" using k by (simp add: kl_def safe_key_def)
  define cs where "cs = butlast children @ [rstrip (last children)]"
  from ne have lc: "last children \<in> set children" by simp
  with ch have lcc: "content_line (last children)" by (simp add: list_all_iff)
  then have ex: "\<exists>x\<in>set (last children). \<not> isspace x" by (rule content_line_nonspace)
  have cs_ok: "\<forall>c\<in>set cs. content_line c \<and> 2 < get_indent c \<and> CHR ''\<newline>'' \<notin> set c"
  proof
    fix c assume "c \<in> set cs"
    then consider "c \<in> set (butlast children)" | "c = rstrip (last children)"
      by (auto simp: cs_def)
    then show "content_line c \<and> 2 < get_indent c \<and> CHR ''\<newline>'' \<notin> set c"
    proof cases
      case 1
      then have "c \<in> set children" by (rule in_set_butlastD)
      with ch show ?thesis by (simp add: list_all_iff)
    next
      case 2
      from ch lc have "2 < get_indent (last children)" "CHR ''\<newline>'' \<notin> set (last children)"
        by (simp_all add: list_all_iff)
      with 2 lcc ex show ?thesis
        using set_rstrip [of "last children"]
        by (auto simp: content_line_rstrip get_indent_rstrip)
    qed
  qed
  have csne: "cs \<noteq> []" by (simp add: cs_def)
  \<comment> \<open>The text that is split into lines.\<close>
  have hdT: "\<not> isspace (hd (join ''\<newline>'' (kl # children)))"
    using k ne by (cases k) (auto simp: join_Cons kl_def safe_key_def)
  have "join ''\<newline>'' (kl # children) \<noteq> []" using ne k by (auto simp: join_Cons kl_def safe_key_def)
  with hdT have "lstrip (join ''\<newline>'' (kl # children)) = join ''\<newline>'' (kl # children)"
    by (simp add: lstrip_id)
  moreover have "rstrip (join ''\<newline>'' (kl # children))
      = join ''\<newline>'' (butlast (kl # children) @ [rstrip (last (kl # children))])"
    using ex ne by (intro rstrip_join) simp_all
  ultimately have st: "strip (join ''\<newline>'' (kl # children)) = join ''\<newline>'' (kl # cs)"
    using ne by (simp add: strip_def cs_def)
  have ls: "split_char (CHR ''\<newline>'') (join ''\<newline>'' (kl # cs)) = kl # cs"
    using nkl cs_ok by (intro split_join_lines) auto
  \<comment> \<open>The scan collects every child, and the nested block skips them all.\<close>
  have "nested_loop ([kl] @ cs @ []) (length [kl]) 0 [] = ([] @ cs, length [kl] + length cs)"
    using cs_ok by (intro nested_loop_collect) auto
  then have nl: "nested_loop (kl # cs) (Suc 0) 0 [] = (cs, Suc (length cs))" by simp
  have "parse_block_loop fl ([] @ cs) (length ([] :: string list)) 2 ([] :: 'a dict)
      = Inr ([], length ([] :: string list) + length cs)"
    using cs_ok by (intro block_skip_all) auto
  then have nb: "parse_block_loop fl cs 0 2 ([] :: 'a dict) = Inr ([], length cs)" by simp
  have "parse_block_loop fl (kl # cs) 0 0 [] =
      parse_block_loop fl (kl # cs) (snd (nested_loop (kl # cs) (0 + 1) 0 [])) 0
        (AList.update k (VMap (fst (([] :: 'a dict), length cs))) [])"
    using kf csne nl nb by (intro block_nested [where b = kl]) (simp_all add: strip_Nil numeral_2_eq_2)
  then have "parse_block_loop fl (kl # cs) 0 0 [] = Inr ([(k, VMap [])], Suc (length cs))"
    by (simp add: nl block_end)
  then show ?thesis
    unfolding parse_def parse_block_def kl_def [symmetric] st ls by simp
qed

theorem deeper_children_are_skipped_witness:
  "safe_key ''a'' \<and>
   list_all (\<lambda>c. content_line c \<and> 2 < get_indent c \<and> CHR ''\<newline>'' \<notin> set c) [''    b: 1''] \<and>
   parse symbolic_float ''a:\<newline>    b: 1'' = Inr [(''a'', VMap [])]"
proof -
  have k: "safe_key ''a''" by (simp add: safe_key_def isspace_def)
  have ne: "[''    b: 1''] \<noteq> []" by simp
  have ch: "list_all (\<lambda>c. content_line c \<and> 2 < get_indent c \<and> CHR ''\<newline>'' \<notin> set c) [''    b: 1'']"
    by (simp add: content_line_def eval_defs)
  from deeper_children_are_skipped [OF k ne ch, of symbolic_float] k ch
  show ?thesis by simp
qed

text \<open>
  C2 as stated fails: the document indented by 4 does not parse to the value tree of the
  document indented by 2, and its key does not get its children.
\<close>

theorem four_space_children_counterexample:
  "parse symbolic_float ''a:\<newline>    b: 1'' = Inr [(''a'', VMap [])] \<and>
   parse symbolic_float ''a:\<newline>  b: 1'' = Inr [(''a'', VMap [(''b'', VInt 1)])] \<and>
   parse symbolic_float ''a:\<newline>    b: 1'' \<noteq> parse symbolic_float ''a:\<newline>  b: 1''"
  by (simp add: eval_defs)

section \<open>Repeated keys\<close>


















end
